theory Spec2Isabelle
  imports Main "HOL-Library.Sublist"
begin

section \<open>Data flowing through the streams\<close>

text \<open>
  The script \<^verbatim>\<open>src/streams.example.js\<close> wires four examples out of the platform's
  stream classes. A chunk on a byte stream is a Buffer: a sequence of bytes, written here
  as a \<^typ>\<open>string\<close> (a list of 8-bit characters). A JavaScript string is written as the
  list of its code points.
\<close>

type_synonym chunk = string
type_synonym jsstring = "nat list"

text \<open>The error taxonomy of the pipeline core (spec, section 7).\<close>

datatype error_kind = IOFailure | Closed | Timeout | TransformFailure | Cancelled

text \<open>What a source yields when polled, and what a stage forwards downstream.\<close>

datatype 'a signal = Chunk 'a | End | Error error_kind

text \<open>What a sink answers to a write.\<close>

datatype write_result = Accepted | Backpressured | Failed error_kind

section \<open>The platform's text functions called by the handlers\<close>

subsection \<open>\<^verbatim>\<open>chunk.toString()\<close>: UTF-8 decoding of a Buffer\<close>

text \<open>
  \<^verbatim>\<open>Buffer.prototype.toString()\<close> with no argument decodes the bytes as UTF-8 and
  replaces every ill-formed subsequence by U+FFFD. The decoder is the state machine of
  the Encoding standard: \<open>needed\<close> continuation bytes are still expected for the code
  point under construction, and the next one must lie between \<open>lower\<close> and \<open>upper\<close>.
  The masks \<open>b & 0x1F\<close>, \<open>b & 0xF\<close>, \<open>b & 0x7\<close>, \<open>b & 0x3F\<close> are written
  \<open>mod 32\<close>, \<open>mod 16\<close>, \<open>mod 8\<close>, \<open>mod 64\<close>, and the shift by six bits as \<open>* 64\<close>.
\<close>

record decoder =
  needed :: nat
  code_point :: nat
  lower :: nat
  upper :: nat

definition decoder_init :: decoder where
  "decoder_init = \<lparr>needed = 0, code_point = 0, lower = 0x80, upper = 0xBF\<rparr>"

text \<open>A byte read when no sequence is open: the new state and the code points emitted.\<close>

definition lead_byte :: "nat \<Rightarrow> decoder \<times> jsstring" where
  "lead_byte b =
     (if b < 0x80 then (decoder_init, [b])
      else if 0xC2 \<le> b \<and> b \<le> 0xDF then
        (\<lparr>needed = 1, code_point = b mod 32, lower = 0x80, upper = 0xBF\<rparr>, [])
      else if 0xE0 \<le> b \<and> b \<le> 0xEF then
        (\<lparr>needed = 2, code_point = b mod 16,
          lower = (if b = 0xE0 then 0xA0 else 0x80),
          upper = (if b = 0xED then 0x9F else 0xBF)\<rparr>, [])
      else if 0xF0 \<le> b \<and> b \<le> 0xF4 then
        (\<lparr>needed = 3, code_point = b mod 8,
          lower = (if b = 0xF0 then 0x90 else 0x80),
          upper = (if b = 0xF4 then 0x8F else 0xBF)\<rparr>, [])
      else (decoder_init, [0xFFFD]))"

text \<open>
  One byte in any state. A byte that cannot continue the open sequence closes it with
  U+FFFD and is then read again as a lead byte.
\<close>

definition decode_byte :: "decoder \<Rightarrow> nat \<Rightarrow> decoder \<times> jsstring" where
  "decode_byte st b =
     (if needed st = 0 then lead_byte b
      else if b < lower st \<or> upper st < b then
        (case lead_byte b of (st', out) \<Rightarrow> (st', 0xFFFD # out))
      else if needed st = 1 then (decoder_init, [code_point st * 64 + b mod 64])
      else (\<lparr>needed = needed st - 1, code_point = code_point st * 64 + b mod 64,
             lower = 0x80, upper = 0xBF\<rparr>, []))"

text \<open>The whole input; a sequence still open at the end of the input yields U+FFFD.\<close>

fun decode_bytes :: "decoder \<Rightarrow> nat list \<Rightarrow> jsstring" where
  "decode_bytes st [] = (if needed st = 0 then [] else [0xFFFD])"
| "decode_bytes st (b # bs) =
     (case decode_byte st b of (st', out) \<Rightarrow> out @ decode_bytes st' bs)"

definition toString :: "chunk \<Rightarrow> jsstring" where
  "toString chunk = decode_bytes decoder_init (map of_char chunk)"

text \<open>The decoder's state after some bytes, to say where a chunk ends.\<close>

fun decoder_after :: "decoder \<Rightarrow> nat list \<Rightarrow> decoder" where
  "decoder_after st [] = st"
| "decoder_after st (b # bs) = decoder_after (fst (decode_byte st b)) bs"

definition ends_at_boundary :: "chunk \<Rightarrow> bool" where
  "ends_at_boundary chunk = (needed (decoder_after decoder_init (map of_char chunk)) = 0)"

subsection \<open>\<^verbatim>\<open>String.prototype.toUpperCase()\<close>\<close>

text \<open>
  \<^verbatim>\<open>toUpperCase\<close> maps every code point of the string to its full uppercase mapping of
  the Unicode Character Database, independently of its neighbours. The mappings of Basic
  Latin, of Latin-1 Supplement and of U+FFFD are written out; the table for every other
  code point is not part of the repository and is the parameter \<open>ucd\<close>.
\<close>

definition upper_cp :: "(nat \<Rightarrow> nat list) \<Rightarrow> nat \<Rightarrow> nat list" where
  "upper_cp ucd c =
     (if 0x61 \<le> c \<and> c \<le> 0x7A then [c - 0x20]
      else if c < 0xB5 then [c]
      else if c = 0xB5 then [0x39C]
      else if c = 0xDF then [0x53, 0x53]
      else if 0xE0 \<le> c \<and> c \<le> 0xFE \<and> c \<noteq> 0xF7 then [c - 0x20]
      else if c = 0xFF then [0x178]
      else if c < 0x100 then [c]
      else if c = 0xFFFD then [c]
      else ucd c)"

definition toUpperCase :: "(nat \<Rightarrow> nat list) \<Rightarrow> jsstring \<Rightarrow> jsstring" where
  "toUpperCase ucd s = concat (map (upper_cp ucd) s)"

subsection \<open>Strings pushed on a byte stream: UTF-8 encoding\<close>

text \<open>
  A string pushed on the readable side of a byte stream is stored as
  \<^verbatim>\<open>Buffer.from(string, 'utf8')\<close>. A code point that is not a Unicode scalar value
  (a lone surrogate) is encoded as U+FFFD.
\<close>

definition encode_cp :: "nat \<Rightarrow> chunk" where
  "encode_cp c =
     (if c < 0x80 then [char_of c]
      else if c < 0x800 then [char_of (0xC0 + c div 64), char_of (0x80 + c mod 64)]
      else if (0xD800 \<le> c \<and> c \<le> 0xDFFF) \<or> 0x110000 \<le> c then
        [char_of (0xEF::nat), char_of (0xBF::nat), char_of (0xBD::nat)]
      else if c < 0x10000 then
        [char_of (0xE0 + c div 4096), char_of (0x80 + c div 64 mod 64),
         char_of (0x80 + c mod 64)]
      else
        [char_of (0xF0 + c div 262144), char_of (0x80 + c div 4096 mod 64),
         char_of (0x80 + c div 64 mod 64), char_of (0x80 + c mod 64)])"

definition Buffer_from :: "jsstring \<Rightarrow> chunk" where
  "Buffer_from s = concat (map encode_cp s)"

subsection \<open>\<^verbatim>\<open>String.fromCharCode\<close>\<close>

text \<open>One UTF-16 code unit: the argument modulo \<open>2^16\<close>.\<close>

definition fromCharCode :: "int \<Rightarrow> jsstring" where
  "fromCharCode n = [nat (n mod 65536)]"

section \<open>\<^verbatim>\<open>convertInputToUpperCase\<close>: the uppercase transform\<close>

text \<open>
  What a handler does, in the order it does it: calls to \<^verbatim>\<open>this.push\<close> and the call
  of its callback, with the error passed to it if any.
\<close>

datatype action = Push jsstring | Callback "error_kind option"

text \<open>
  Lines 73 to 77:
  \<^verbatim>\<open>transform(chunk, encoding, callback) {
     const uppercasedChunk = chunk.toString().toUpperCase();
     this.push(uppercasedChunk);
     callback();
   }\<close>
\<close>

definition transform :: "(nat \<Rightarrow> nat list) \<Rightarrow> chunk \<Rightarrow> string \<Rightarrow> action list" where
  "transform ucd chunk encoding =
     (let uppercasedChunk = toUpperCase ucd (toString chunk)
      in [Push uppercasedChunk, Callback None])"

text \<open>The strings a handler pushed before it called back, and what it called back with.\<close>

fun pushed :: "action list \<Rightarrow> jsstring list" where
  "pushed [] = []"
| "pushed (Push s # acts) = s # pushed acts"
| "pushed (Callback e # acts) = []"

fun called_back :: "action list \<Rightarrow> error_kind option option" where
  "called_back [] = None"
| "called_back (Push s # acts) = called_back acts"
| "called_back (Callback e # acts) = Some e"

text \<open>
  What the readable side of a byte stream emits for a string pushed on it: the string's
  bytes as one chunk, and nothing at all for the empty string, which the platform drops.
  So a byte stream never delivers an empty chunk. \<open>emitted\<close> is what the pushes of a
  handler make the stream emit.
\<close>

definition readable_push :: "jsstring \<Rightarrow> chunk signal list" where
  "readable_push s = (if s = [] then [] else [Chunk (Buffer_from s)])"

definition emitted :: "action list \<Rightarrow> chunk signal list" where
  "emitted acts = concat (map readable_push (pushed acts))"

text \<open>
  Modelled from the spec: the Transform class that drives the handler is the platform's,
  not the repository's. Section 4.3: a stage applies its function to the chunks in the
  order they arrive, emits the outputs of chunk \<open>i\<close> before it takes chunk \<open>i+1\<close>, fails
  when the function fails, and forwards End after all pending output. The next chunk is
  taken only once the handler has called back; a Buffer chunk is handed over with the
  encoding \<^verbatim>\<open>'buffer'\<close>. Every push is forwarded as a chunk, as section 4.3 has it;
  this is what \<^const>\<open>readable_push\<close> emits whenever the pushed string is not empty.
\<close>

fun stage_feed :: "(chunk \<Rightarrow> string \<Rightarrow> action list) \<Rightarrow> chunk signal list \<Rightarrow> chunk signal list" where
  "stage_feed f [] = []"
| "stage_feed f (Chunk c # rest) =
     (let acts = f c ''buffer''
      in map (\<lambda>s. Chunk (Buffer_from s)) (pushed acts) @
         (case called_back acts of
            None \<Rightarrow> []
          | Some None \<Rightarrow> stage_feed f rest
          | Some (Some e) \<Rightarrow> [Error e]))"
| "stage_feed f (End # rest) = [End]"
| "stage_feed f (Error e # rest) = [Error e]"

text \<open>The bytes a sink has received from a run of signals, concatenated.\<close>

fun payload :: "chunk signal list \<Rightarrow> chunk" where
  "payload [] = []"
| "payload (Chunk c # rest) = c @ payload rest"
| "payload (End # rest) = payload rest"
| "payload (Error e # rest) = payload rest"

text \<open>
  \<^verbatim>\<open>process.stdin.pipe(uppercaseTransform).pipe(process.stdout)\<close>: the chunks of standard
  input, then End, go through the stage.
\<close>

definition convertInputToUpperCase :: "(nat \<Rightarrow> nat list) \<Rightarrow> chunk list \<Rightarrow> chunk signal list" where
  "convertInputToUpperCase ucd stdin = stage_feed (transform ucd) (map Chunk stdin @ [End])"

section \<open>\<^verbatim>\<open>logChars\<close>: the Duplex\<close>

text \<open>
  The Duplex object: the field \<^verbatim>\<open>currentCharCode\<close> the script adds to it, whether its
  writable side has been ended, and the lines printed by \<^verbatim>\<open>console.log\<close>.
\<close>

record duplex =
  currentCharCode :: int
  writable_ended :: bool
  console :: "string list"

text \<open>
  Lines 90 to 96, with \<^verbatim>\<open>this.push(null)\<close> as \<^const>\<open>End\<close>:
  \<^verbatim>\<open>read(size) {
     if (this.currentCharCode > 90) { this.push(null); return; }
     this.push(String.fromCharCode(this.currentCharCode++));
   }\<close>
\<close>

definition read :: "nat \<Rightarrow> duplex \<Rightarrow> jsstring signal \<times> duplex" where
  "read sz d =
     (if currentCharCode d > 90 then (End, d)
      else (Chunk (fromCharCode (currentCharCode d)),
            d\<lparr>currentCharCode := currentCharCode d + 1\<rparr>))"

text \<open>
  Lines 86 to 89: the write handler prints the chunk and calls back without an error.
  The template string turns the chunk into a string with \<^verbatim>\<open>toString()\<close>, and the
  console writes that string out as UTF-8.
\<close>

definition write_handler :: "chunk \<Rightarrow> string \<Rightarrow> duplex \<Rightarrow> duplex \<times> error_kind option" where
  "write_handler chunk encoding d =
     (d\<lparr>console := console d @ [''Writing: '' @ Buffer_from (toString chunk)]\<rparr>, None)"

text \<open>
  Lines 101 to 103: the listener for \<^verbatim>\<open>'data'\<close>, which prints the chunk in the same
  way.
\<close>

definition on_data :: "chunk \<Rightarrow> duplex \<Rightarrow> duplex" where
  "on_data chunk d =
     d\<lparr>console := console d @ [''Received: '' @ Buffer_from (toString chunk)]\<rparr>"

text \<open>Line 99 and the object as constructed.\<close>

definition myDuplexStream :: duplex where
  "myDuplexStream = \<lparr>currentCharCode = 65, writable_ended = False, console = []\<rparr>"

text \<open>The handler called \<open>n\<close> times in a row, whatever it answers.\<close>

fun reads :: "nat \<Rightarrow> nat \<Rightarrow> duplex \<Rightarrow> jsstring signal list" where
  "reads 0 sz d = []"
| "reads (Suc n) sz d = (case read sz d of (x, d') \<Rightarrow> x # reads n sz d')"

text \<open>
  Modelled from the spec: the Duplex class is the platform's. With a \<^verbatim>\<open>'data'\<close>
  listener attached the readable side is polled until it signals End (section 4.1), each
  pushed string reaching the listener as a Buffer. The result is what the readable side
  emitted and the object afterwards.
\<close>

function flow :: "nat \<Rightarrow> duplex \<Rightarrow> chunk signal list \<times> duplex" where
  "flow sz d =
     (case read sz d of
        (Chunk s, d') \<Rightarrow>
          (case flow sz (on_data (Buffer_from s) d') of
             (out, d'') \<Rightarrow> (Chunk (Buffer_from s) # out, d''))
      | (End, d') \<Rightarrow> ([End], d')
      | (Error e, d') \<Rightarrow> ([Error e], d'))"
  by pat_completeness auto
termination
  by (relation "measure (\<lambda>(sz, d). nat (91 - currentCharCode d))")
     (auto simp: read_def on_data_def split: if_splits)

declare flow.simps [simp del]

text \<open>
  Modelled from the spec: \<^verbatim>\<open>write()\<close> and \<^verbatim>\<open>end()\<close> of the Duplex are the platform's.
  Sections 3 and 4.2: a write on a closed sink fails with \<^const>\<open>Closed\<close>, otherwise the
  handler consumes the chunk. Section 4.5: the two halves share nothing, and closing the
  inbound side leaves the outbound side alone.
\<close>

definition duplex_write :: "chunk \<Rightarrow> duplex \<Rightarrow> write_result \<times> duplex" where
  "duplex_write chunk d =
     (if writable_ended d then (Failed Closed, d)
      else (case write_handler chunk ''buffer'' d of
              (d', None) \<Rightarrow> (Accepted, d')
            | (d', Some e) \<Rightarrow> (Failed e, d')))"

definition duplex_end :: "duplex \<Rightarrow> duplex" where
  "duplex_end d = d\<lparr>writable_ended := True\<rparr>"

text \<open>
  Lines 84 to 108: the object is built, written to, ended, and then flows.
\<close>

definition logChars :: "nat \<Rightarrow> chunk signal list \<times> duplex" where
  "logChars sz = flow sz (duplex_end (snd (duplex_write ''Hello'' myDuplexStream)))"

section \<open>\<^verbatim>\<open>readWriteStream\<close> and \<^verbatim>\<open>zipGenerate\<close>: source, sink and pipe\<close>

text \<open>
  \<^verbatim>\<open>readableStream.pipe(writableStream)\<close> hands both file streams to the platform's
  pipe. None of the three is code of the repository; they follow the spec's sections 3
  and 4.
\<close>

subsection \<open>Source\<close>

text \<open>
  Modelled from the spec: the byte source provider is external (section 6). \<open>pending\<close>
  is what the provider is going to yield; the attributes \<open>exhausted\<close> and \<open>lastError\<close>
  are those of section 3. Section 4.1: after End or Error every later poll returns the
  same terminal value; a provider that has nothing more to yield is at its end.
\<close>

record source =
  pending :: "chunk signal list"
  exhausted :: bool
  lastError :: "error_kind option"

text \<open>
  Modelled from the spec: \<^verbatim>\<open>poll()\<close> of section 4.1, and a source as its provider
  hands it over.
\<close>

definition poll :: "source \<Rightarrow> chunk signal \<times> source" where
  "poll s =
     (if exhausted s then (End, s)
      else case lastError s of
        Some e \<Rightarrow> (Error e, s)
      | None \<Rightarrow>
          (case pending s of
             [] \<Rightarrow> (End, s\<lparr>exhausted := True\<rparr>)
           | Chunk c # rest \<Rightarrow> (Chunk c, s\<lparr>pending := rest\<rparr>)
           | End # rest \<Rightarrow> (End, s\<lparr>pending := rest, exhausted := True\<rparr>)
           | Error e # rest \<Rightarrow> (Error e, s\<lparr>pending := rest, lastError := Some e\<rparr>)))"

text \<open>
  Modelled from the spec: cancellation requested by the pipe (section 4.4, step 2, on a
  failed write). A source that has not ended yields \<^const>\<open>Cancelled\<close> from then on.
\<close>

definition source_cancel :: "source \<Rightarrow> source" where
  "source_cancel s =
     (if exhausted s then s
      else case lastError s of
        Some e \<Rightarrow> s
      | None \<Rightarrow> s\<lparr>lastError := Some Cancelled\<rparr>)"

definition source_of :: "chunk signal list \<Rightarrow> source" where
  "source_of script = \<lparr>pending = script, exhausted = False, lastError = None\<rparr>"

text \<open>The chunks a script yields before its end, and whether it ends without an error.\<close>

fun produced :: "chunk signal list \<Rightarrow> chunk list" where
  "produced [] = []"
| "produced (Chunk c # rest) = c # produced rest"
| "produced (End # rest) = []"
| "produced (Error e # rest) = []"

fun error_free :: "chunk signal list \<Rightarrow> bool" where
  "error_free [] = True"
| "error_free (Chunk c # rest) = error_free rest"
| "error_free (End # rest) = True"
| "error_free (Error e # rest) = False"

subsection \<open>Sink\<close>

text \<open>
  Modelled from the spec: the byte sink provider is external (section 6). The attributes
  \<open>accepting\<close> and \<open>closed\<close> are those of section 3; \<open>received\<close> is what the sink has
  consumed, in order; \<open>replies\<close> is what the provider is going to answer to the coming
  writes, and once it has run out every write is accepted. Section 4.2: a write after
  close fails with \<^const>\<open>Closed\<close>. A write answered \<^const>\<open>Backpressured\<close> or
  \<^const>\<open>Failed\<close> has not been consumed: the chunk stays with the caller, who delivers it
  once the sink has drained (section 8, the scenario of the chunk \<^verbatim>\<open>"x"\<close>).
\<close>

record sink =
  received :: "chunk list"
  accepting :: bool
  closed :: bool
  replies :: "write_result list"

definition sink_write :: "chunk \<Rightarrow> sink \<Rightarrow> write_result \<times> sink" where
  "sink_write c k =
     (if closed k then (Failed Closed, k)
      else case replies k of
        [] \<Rightarrow> (Accepted, k\<lparr>received := received k @ [c]\<rparr>)
      | Accepted # rs \<Rightarrow> (Accepted, k\<lparr>received := received k @ [c], replies := rs\<rparr>)
      | Backpressured # rs \<Rightarrow> (Backpressured, k\<lparr>accepting := False, replies := rs\<rparr>)
      | Failed e # rs \<Rightarrow> (Failed e, k\<lparr>replies := rs\<rparr>))"

text \<open>
  Modelled from the spec: \<^verbatim>\<open>close()\<close> of section 4.2, and a sink as its provider
  hands it over, open and having received nothing.
\<close>

definition sink_close :: "sink \<Rightarrow> sink" where
  "sink_close k = k\<lparr>closed := True\<rparr>"

definition sink_of :: "write_result list \<Rightarrow> sink" where
  "sink_of rs = \<lparr>received = [], accepting = True, closed = False, replies = rs\<rparr>"

text \<open>
  Several writes in a row, with their answers and the sink afterwards; and a list of
  answers none of which is a failure.
\<close>

fun sink_writes :: "chunk list \<Rightarrow> sink \<Rightarrow> write_result list \<times> sink" where
  "sink_writes [] k = ([], k)"
| "sink_writes (c # cs) k =
     (case sink_write c k of
        (r, k') \<Rightarrow> (case sink_writes cs k' of (rs, k'') \<Rightarrow> (r # rs, k'')))"

fun no_failure :: "write_result list \<Rightarrow> bool" where
  "no_failure [] = True"
| "no_failure (Accepted # rs) = no_failure rs"
| "no_failure (Backpressured # rs) = no_failure rs"
| "no_failure (Failed e # rs) = False"

subsection \<open>Pipe\<close>

text \<open>
  Modelled from the spec: the pipe is the platform's. Section 3: it links one upstream
  to one downstream and holds a buffer with its byte count \<open>buffered\<close> and a high
  watermark. The buffer is kept in two parts: \<open>acks_due\<close>, the chunks the sink has
  accepted and not yet acknowledged as consumed (oldest first), and \<open>held\<close>, the chunk
  whose write was not accepted. \<open>suspended\<close> says that polling waits for the sink to
  drain.
\<close>

datatype pipe_status = Idle | Running | Completed | Errored error_kind

record pipe =
  status :: pipe_status
  upstream :: source
  downstream :: sink
  high_watermark :: nat
  buffered :: nat
  acks_due :: "chunk list"
  held :: "chunk option"
  suspended :: bool

definition pipe_init :: "nat \<Rightarrow> source \<Rightarrow> sink \<Rightarrow> pipe" where
  "pipe_init hw u k =
     \<lparr>status = Idle, upstream = u, downstream = k, high_watermark = hw, buffered = 0,
      acks_due = [], held = None, suspended = False\<rparr>"

text \<open>
  Modelled from the spec: section 4.4, step 2, after the count has been incremented:
  \<^verbatim>\<open>write()\<close> to downstream.
  Accepted: the chunk waits for its acknowledgement. Backpressured: polling is
  suspended. Error: the pipe is Errored, upstream is asked to cancel, nothing more is
  written.
\<close>

definition deliver :: "chunk \<Rightarrow> pipe \<Rightarrow> pipe" where
  "deliver c p =
     (case sink_write c (downstream p) of
        (Accepted, k) \<Rightarrow> p\<lparr>downstream := k, acks_due := acks_due p @ [c], held := None\<rparr>
      | (Backpressured, k) \<Rightarrow> p\<lparr>downstream := k, held := Some c, suspended := True\<rparr>
      | (Failed e, k) \<Rightarrow>
          p\<lparr>status := Errored e, upstream := source_cancel (upstream p), downstream := k,
            held := Some c\<rparr>)"

text \<open>
  Modelled from the spec: what can happen to a pipe (section 5, cooperative scheduling):
  its control loop runs
  one iteration, downstream acknowledges the consumption of the oldest accepted chunk,
  or downstream signals that it has drained.
\<close>

datatype event = Step | Ack | Drained

text \<open>
  Modelled from the spec: section 4.4. A step starts an idle pipe. A running pipe that is not suspended first
  delivers the chunk it holds; otherwise it polls upstream, and only while the buffered
  count is below the high watermark (step 1). On a chunk the count grows by the chunk's
  size and the chunk is written (step 2); on End the sink is closed and the pipe is
  Completed, but only once every buffered chunk has been acknowledged (step 3 and the
  tie-break); on an upstream error the sink is closed and the pipe is Errored (step 4).
  Nothing leaves Completed or Errored. An acknowledgement takes the chunk's size off the
  count; a drain signal ends the suspension.
\<close>

fun pipe_event :: "event \<Rightarrow> pipe \<Rightarrow> pipe" where
  "pipe_event Step p =
     (case status p of
        Idle \<Rightarrow> p\<lparr>status := Running\<rparr>
      | Running \<Rightarrow>
          (if suspended p then p
           else case held p of
             Some c \<Rightarrow> deliver c p
           | None \<Rightarrow>
               (if high_watermark p \<le> buffered p then p
                else case poll (upstream p) of
                  (Chunk c, u) \<Rightarrow>
                    deliver c (p\<lparr>upstream := u, buffered := buffered p + length c\<rparr>)
                | (End, u) \<Rightarrow>
                    (if acks_due p = [] then
                       p\<lparr>status := Completed, upstream := u,
                         downstream := sink_close (downstream p)\<rparr>
                     else p\<lparr>upstream := u\<rparr>)
                | (Error e, u) \<Rightarrow>
                    p\<lparr>status := Errored e, upstream := u,
                      downstream := sink_close (downstream p)\<rparr>))
      | Completed \<Rightarrow> p
      | Errored e \<Rightarrow> p)"
| "pipe_event Ack p =
     (case acks_due p of
        [] \<Rightarrow> p
      | c # cs \<Rightarrow> p\<lparr>buffered := buffered p - length c, acks_due := cs\<rparr>)"
| "pipe_event Drained p =
     (if suspended p then
        p\<lparr>downstream := (downstream p)\<lparr>accepting := True\<rparr>, suspended := False\<rparr>
      else p)"

fun pipe_run :: "event list \<Rightarrow> pipe \<Rightarrow> pipe" where
  "pipe_run [] p = p"
| "pipe_run (e # es) p = pipe_run es (pipe_event e p)"

text \<open>
  A schedule of events applied in order, and the size of the one chunk in flight: the
  chunk polled last among those still in the buffer.
\<close>

definition in_flight :: "pipe \<Rightarrow> nat" where
  "in_flight p =
     (case held p of
        Some c \<Rightarrow> length c
      | None \<Rightarrow> (case acks_due p of [] \<Rightarrow> 0 | c # cs \<Rightarrow> length (last (c # cs))))"

text \<open>\<^verbatim>\<open>readWriteStream\<close>, lines 50 to 57: the file's chunks are piped to the output file.\<close>

definition readWriteStream :: "nat \<Rightarrow> chunk signal list \<Rightarrow> write_result list \<Rightarrow> pipe" where
  "readWriteStream hw input_txt rs = pipe_init hw (source_of input_txt) (sink_of rs)"

section \<open>Predicates used in the proofs\<close>

text \<open>A case table with no entries beyond those written out, for the examples.\<close>

definition no_ucd :: "nat \<Rightarrow> nat list" where
  "no_ucd c = [c]"

text \<open>The bytes in the pipe's buffer, and the buffer's accounting.\<close>

definition bytes :: "chunk list \<Rightarrow> nat" where
  "bytes cs = sum_list (map length cs)"

definition held_list :: "pipe \<Rightarrow> chunk list" where
  "held_list p = (case held p of None \<Rightarrow> [] | Some c \<Rightarrow> [c])"

definition accounted :: "pipe \<Rightarrow> bool" where
  "accounted p \<longleftrightarrow>
     buffered p = bytes (acks_due p) + bytes (held_list p) \<and>
     (case held p of
        Some c \<Rightarrow> bytes (acks_due p) < high_watermark p
      | None \<Rightarrow> acks_due p = [] \<or> bytes (butlast (acks_due p)) < high_watermark p)"

text \<open>What is still to come from upstream, and a run free of errors towards \<open>cs\<close>.\<close>

definition remaining :: "source \<Rightarrow> chunk list" where
  "remaining u = (if exhausted u then [] else produced (pending u))"

definition on_course :: "chunk list \<Rightarrow> pipe \<Rightarrow> bool" where
  "on_course cs p \<longleftrightarrow>
     (status p = Idle \<or> status p = Running \<or> status p = Completed) \<and>
     lastError (upstream p) = None \<and>
     (exhausted (upstream p) \<or> error_free (pending (upstream p))) \<and>
     received (downstream p) @ held_list p @ remaining (upstream p) = cs \<and>
     no_failure (replies (downstream p)) \<and>
     (closed (downstream p) \<longleftrightarrow> status p = Completed) \<and>
     (status p = Completed \<longrightarrow> held p = None \<and> exhausted (upstream p))"

text \<open>The work left before an error-free pipe completes under a fair scheduler.\<close>

definition work_left :: "pipe \<Rightarrow> nat" where
  "work_left p =
     2 * length (pending (upstream p)) + 2 * length (held_list p) + length (acks_due p) +
     2 * length (replies (downstream p)) + (if suspended p then 1 else 0) +
     (if status p = Idle then 1 else 0)"

section \<open>The uppercase transform\<close>

lemma decode_bytes_needed0:
  "needed st = 0 \<Longrightarrow> decode_bytes st bs = decode_bytes decoder_init bs"
  by (cases bs) (simp_all add: decode_byte_def decoder_init_def)

lemma decode_bytes_append:
  "needed (decoder_after st a) = 0 \<Longrightarrow>
   decode_bytes st (a @ b) = decode_bytes st a @ decode_bytes decoder_init b"
proof (induction a arbitrary: st)
  case Nil
  then show ?case by (simp add: decode_bytes_needed0)
next
  case (Cons x a)
  obtain st' out where step: "decode_byte st x = (st', out)"
    by (cases "decode_byte st x")
  with Cons.prems have "needed (decoder_after st' a) = 0" by simp
  then have "decode_bytes st' (a @ b) = decode_bytes st' a @ decode_bytes decoder_init b"
    by (rule Cons.IH)
  with step show ?case by simp
qed

lemma toString_append:
  "ends_at_boundary a \<Longrightarrow> toString (a @ b) = toString a @ toString b"
  by (simp add: toString_def ends_at_boundary_def decode_bytes_append)

lemma toString_Nil: "toString [] = []"
  by (simp add: toString_def decoder_init_def)

lemma toString_concat:
  "\<forall>c \<in> set cs. ends_at_boundary c \<Longrightarrow> toString (concat cs) = concat (map toString cs)"
  by (induction cs) (simp_all add: toString_Nil toString_append)

lemma toUpperCase_append: "toUpperCase ucd (s @ t) = toUpperCase ucd s @ toUpperCase ucd t"
  by (simp add: toUpperCase_def)

lemma toUpperCase_concat: "toUpperCase ucd (concat ss) = concat (map (toUpperCase ucd) ss)"
  by (induction ss) (simp_all add: toUpperCase_append, simp add: toUpperCase_def)

lemma Buffer_from_append: "Buffer_from (s @ t) = Buffer_from s @ Buffer_from t"
  by (simp add: Buffer_from_def)

lemma Buffer_from_concat: "Buffer_from (concat ss) = concat (map Buffer_from ss)"
  by (induction ss) (simp_all add: Buffer_from_append, simp add: Buffer_from_def)

lemma stage_feed_transform:
  "stage_feed (transform ucd) (map Chunk cs @ rest) =
   map (\<lambda>c. Chunk (Buffer_from (toUpperCase ucd (toString c)))) cs @
   stage_feed (transform ucd) rest"
  by (induction cs) (simp_all add: transform_def)

lemma payload_chunks: "payload (map Chunk cs @ rest) = concat cs @ payload rest"
  by (induction cs) simp_all

lemma payload_convert:
  "payload (convertInputToUpperCase ucd stdin) =
   concat (map (\<lambda>c. Buffer_from (toUpperCase ucd (toString c))) stdin)"
proof -
  have "payload (map (\<lambda>c. Chunk (Buffer_from (toUpperCase ucd (toString c)))) stdin @ [End]) =
        payload (map Chunk (map (\<lambda>c. Buffer_from (toUpperCase ucd (toString c))) stdin) @ [End])"
    by (simp add: comp_def)
  also have "\<dots> = concat (map (\<lambda>c. Buffer_from (toUpperCase ucd (toString c))) stdin)"
    by (simp only: payload_chunks) simp
  finally show ?thesis
    using stage_feed_transform [of ucd stdin "[End]"]
    by (simp add: convertInputToUpperCase_def)
qed

lemmas text_eval =
  Buffer_from_def toUpperCase_def toString_def decode_byte_def lead_byte_def
  decoder_init_def upper_cp_def encode_cp_def char_of_eq_iff

lemma toString_concat_butlast:
  "\<forall>c \<in> set (butlast cs). ends_at_boundary c \<Longrightarrow>
   toString (concat cs) = concat (map toString cs)"
proof (induction cs)
  case Nil
  then show ?case by (simp add: toString_Nil)
next
  case (Cons c cs)
  show ?case
  proof (cases cs)
    case Nil
    then show ?thesis by simp
  next
    case (Cons c' cs')
    with Cons.prems have "ends_at_boundary c" and "\<forall>x \<in> set (butlast cs). ends_at_boundary x"
      by simp_all
    with Cons.IH show ?thesis by (simp add: toString_append)
  qed
qed

text \<open>
  Where the chunks are cut at character boundaries the stage does not see the cuts:
  whenever no chunk but the last ends inside a multi-byte UTF-8 sequence, the bytes the
  uppercase stage emits for the chunked input are the uppercased text of the undivided
  input. This covers every way of splitting ASCII input.
\<close>

lemma rechunking_at_boundaries:
  assumes "\<forall>c \<in> set (butlast stdin). ends_at_boundary c"
  shows "payload (convertInputToUpperCase ucd stdin) =
         Buffer_from (toUpperCase ucd (toString (concat stdin)))
       \<and> payload (convertInputToUpperCase ucd stdin) =
         payload (convertInputToUpperCase ucd [concat stdin])"
proof -
  have "payload (convertInputToUpperCase ucd stdin) =
        Buffer_from (toUpperCase ucd (toString (concat stdin)))"
    using assms
    by (simp add: payload_convert toString_concat_butlast toUpperCase_concat
        Buffer_from_concat comp_def)
  then show ?thesis by (simp add: payload_convert)
qed

lemma boundary_after_e_acute: "ends_at_boundary [CHR 0xC3, CHR 0xA9, CHR ''a'']"
  by (simp add: ends_at_boundary_def text_eval)

text \<open>
  An input with a two-byte character, split after the third byte.
\<close>

lemma rechunking_at_boundaries_example:
  "ends_at_boundary [CHR 0xC3, CHR 0xA9, CHR ''a''] \<and>
   payload (convertInputToUpperCase no_ucd [[CHR 0xC3, CHR 0xA9, CHR ''a''], ''bc'']) =
   [CHR 0xC3, CHR 0x89, CHR ''A'', CHR ''B'', CHR ''C'']"
proof -
  have h: "\<forall>c \<in> set (butlast [[CHR 0xC3, CHR 0xA9, CHR ''a''], ''bc'']). ends_at_boundary c"
    by (simp add: boundary_after_e_acute)
  have v: "Buffer_from (toUpperCase no_ucd (toString (concat [[CHR 0xC3, CHR 0xA9, CHR ''a''], ''bc'']))) =
    [CHR 0xC3, CHR 0x89, CHR ''A'', CHR ''B'', CHR ''C'']"
    by (simp add: text_eval)
  show ?thesis
    using rechunking_at_boundaries [OF h, of no_ucd] v boundary_after_e_acute by simp
qed

text \<open>
  Claim C3. The output of the uppercase stage is to be the same for every way of
  splitting the input into chunks, and equal to the uppercased text of the undivided
  input. The code breaks this where a chunk ends inside a character, because the handler
  decodes every chunk on its own. The two bytes of U+00E9 delivered as two chunks: each
  chunk decodes to U+FFFD, so the stage emits six bytes, whereas the same two bytes as
  one chunk yield the two bytes of U+00C9.
\<close>

theorem rechunking_splits_code_point:
  "payload (convertInputToUpperCase no_ucd [[CHR 0xC3], [CHR 0xA9]]) =
     [CHR 0xEF, CHR 0xBF, CHR 0xBD, CHR 0xEF, CHR 0xBF, CHR 0xBD]
   \<and> payload (convertInputToUpperCase no_ucd [concat [[CHR 0xC3], [CHR 0xA9]]]) =
     [CHR 0xC3, CHR 0x89]
   \<and> payload (convertInputToUpperCase no_ucd [[CHR 0xC3], [CHR 0xA9]]) \<noteq>
     payload (convertInputToUpperCase no_ucd [concat [[CHR 0xC3], [CHR 0xA9]]])"
  by (simp add: convertInputToUpperCase_def transform_def text_eval)

lemma ascii_ends_at_boundary_aux:
  "\<forall>b \<in> set bs. b < 0x80 \<Longrightarrow> needed st = 0 \<Longrightarrow> needed (decoder_after st bs) = 0"
  by (induction bs arbitrary: st) (simp_all add: decode_byte_def lead_byte_def decoder_init_def)

lemma ascii_ends_at_boundary:
  "\<forall>c \<in> set chunk. of_char c < (0x80::nat) \<Longrightarrow> ends_at_boundary chunk"
  by (simp add: ends_at_boundary_def ascii_ends_at_boundary_aux decoder_init_def)

text \<open>
  Claim C2. Every chunk delivered to the case-transform stage of
  \<^verbatim>\<open>convertInputToUpperCase\<close> yields its uppercased text, in the order of arrival: the
  output for the chunks received so far is complete before any later input is taken
  (feeding only the chunks, without End, already gives all of their outputs and no End),
  and End is forwarded last, after the output of every chunk. The chunk \<^verbatim>\<open>"hello"\<close>
  followed by End yields \<^verbatim>\<open>"HELLO"\<close> and then End.
\<close>

theorem uppercase_stage_in_order:
  "convertInputToUpperCase ucd stdin =
     map (\<lambda>c. Chunk (Buffer_from (toUpperCase ucd (toString c)))) stdin @ [End]
   \<and> stage_feed (transform ucd) (map Chunk stdin) =
     map (\<lambda>c. Chunk (Buffer_from (toUpperCase ucd (toString c)))) stdin
   \<and> convertInputToUpperCase ucd [''hello''] = [Chunk ''HELLO'', End]"
proof -
  have a: "convertInputToUpperCase ucd stdin =
     map (\<lambda>c. Chunk (Buffer_from (toUpperCase ucd (toString c)))) stdin @ [End]"
    using stage_feed_transform [of ucd stdin "[End]"] by (simp add: convertInputToUpperCase_def)
  have b: "stage_feed (transform ucd) (map Chunk stdin) =
     map (\<lambda>c. Chunk (Buffer_from (toUpperCase ucd (toString c)))) stdin"
    using stage_feed_transform [of ucd stdin "[]"] by simp
  have c: "convertInputToUpperCase ucd [''hello''] = [Chunk ''HELLO'', End]"
    by (simp add: convertInputToUpperCase_def transform_def text_eval)
  from a b c show ?thesis by simp
qed

text \<open>
  Claim C9. The output of the uppercase transform depends only on the chunk's bytes:
  two calls with the same chunk and any two values of the encoding argument do the same
  (push the same string, call back the same way).
\<close>

theorem transform_ignores_encoding: "transform ucd chunk e1 = transform ucd chunk e2"
  by (simp add: transform_def)

text \<open>
  A chunk that is not empty is pushed as a string that is not empty, provided the case
  table maps no code point to the empty string.
\<close>

lemma decode_byte_silent:
  "decode_byte st b = (st', []) \<Longrightarrow> needed st' \<noteq> 0"
  by (auto simp: decode_byte_def lead_byte_def decoder_init_def split: if_splits prod.splits)

lemma decode_bytes_empty:
  "decode_bytes st bs = [] \<Longrightarrow> bs = [] \<and> needed st = 0"
proof (induction bs arbitrary: st)
  case Nil
  then show ?case by (simp split: if_splits)
next
  case (Cons b bs)
  obtain st' out where step: "decode_byte st b = (st', out)" by (cases "decode_byte st b")
  with Cons.prems have "out = []" and "decode_bytes st' bs = []" by simp_all
  from this(2) have "needed st' = 0" using Cons.IH by blast
  moreover from step \<open>out = []\<close> have "needed st' \<noteq> 0" by (simp add: decode_byte_silent)
  ultimately show ?case by simp
qed

lemma toString_nonempty: "chunk \<noteq> [] \<Longrightarrow> toString chunk \<noteq> []"
  using decode_bytes_empty [of decoder_init "map of_char chunk"] by (auto simp: toString_def)

lemma upper_cp_nonempty: "\<forall>c. ucd c \<noteq> [] \<Longrightarrow> upper_cp ucd c \<noteq> []"
  by (simp add: upper_cp_def)

lemma encode_cp_nonempty: "encode_cp c \<noteq> []"
  by (simp add: encode_cp_def)

lemma uppercased_chunk_nonempty:
  assumes "chunk \<noteq> []" and "\<forall>c. ucd c \<noteq> []"
  shows "Buffer_from (toUpperCase ucd (toString chunk)) \<noteq> []"
proof -
  from assms(1) obtain c cs where s: "toString chunk = c # cs"
    using toString_nonempty by (cases "toString chunk") auto
  from assms(2) obtain u us where u: "upper_cp ucd c = u # us"
    using upper_cp_nonempty [of ucd c] by (cases "upper_cp ucd c") auto
  show ?thesis
    by (simp add: Buffer_from_def toUpperCase_def s u encode_cp_nonempty)
qed

lemma uppercased_text_nonempty:
  assumes "chunk \<noteq> []" and "\<forall>c. ucd c \<noteq> []"
  shows "toUpperCase ucd (toString chunk) \<noteq> []"
proof -
  from assms(1) obtain c cs where s: "toString chunk = c # cs"
    using toString_nonempty by (cases "toString chunk") auto
  from assms(2) have "upper_cp ucd c \<noteq> []" by (rule upper_cp_nonempty)
  then show ?thesis by (simp add: toUpperCase_def s)
qed

lemma stage_output_nonempty:
  assumes "\<forall>c \<in> set stdin. c \<noteq> []" and "\<forall>c. ucd c \<noteq> []"
  shows "Chunk [] \<notin> set (convertInputToUpperCase ucd stdin)"
proof -
  have whole: "convertInputToUpperCase ucd stdin =
     map (\<lambda>c. Chunk (Buffer_from (toUpperCase ucd (toString c)))) stdin @ [End]"
    using stage_feed_transform [of ucd stdin "[End]"] by (simp add: convertInputToUpperCase_def)
  have ne: "Buffer_from (toUpperCase ucd (toString c)) \<noteq> []" if "c \<in> set stdin" for c
    using that assms by (simp add: uppercased_chunk_nonempty)
  show ?thesis
  proof
    assume "Chunk [] \<in> set (convertInputToUpperCase ucd stdin)"
    with whole obtain c where "c \<in> set stdin"
      and "Buffer_from (toUpperCase ucd (toString c)) = []"
      by auto
    with ne show False by blast
  qed
qed

lemma stage_output_emitted:
  assumes "\<forall>c \<in> set stdin. c \<noteq> []" and "\<forall>c. ucd c \<noteq> []"
  shows "convertInputToUpperCase ucd stdin =
         concat (map (\<lambda>c. emitted (transform ucd c ''buffer'')) stdin) @ [End]"
proof -
  have one: "emitted (transform ucd c ''buffer'') =
             [Chunk (Buffer_from (toUpperCase ucd (toString c)))]" if "c \<in> set stdin" for c
    using that assms
    by (simp add: emitted_def readable_push_def transform_def uppercased_text_nonempty)
  have "concat (map (\<lambda>c. emitted (transform ucd c ''buffer'')) stdin) =
        concat (map (\<lambda>c. [Chunk (Buffer_from (toUpperCase ucd (toString c)))]) stdin)"
    using one by (simp cong: map_cong)
  also have "\<dots> = map (\<lambda>c. Chunk (Buffer_from (toUpperCase ucd (toString c)))) stdin"
    by (induction stdin) simp_all
  finally show ?thesis
    using stage_feed_transform [of ucd stdin "[End]"] by (simp add: convertInputToUpperCase_def)
qed

text \<open>
  Claim C10. For every input chunk the uppercase transform emits exactly one output
  chunk and completes its callback without an error. The chunks are those a byte stream
  delivers, which are never empty, and the case table is one that maps no code point to
  the empty string, as the Unicode table does. The handler calls \<^verbatim>\<open>this.push\<close> once,
  with a string that is not empty, so the stream emits exactly one chunk for it, which is
  not empty either; then it calls back with no error. So the stage's output is what
  these pushes emit, one chunk per input chunk and none of them empty, then End, and
  never an error.
\<close>

theorem transform_pushes_once_without_error:
  assumes "chunk \<noteq> []" and "\<forall>c \<in> set stdin. c \<noteq> []" and "\<forall>c. ucd c \<noteq> []"
  shows "pushed (transform ucd chunk encoding) = [toUpperCase ucd (toString chunk)]
   \<and> emitted (transform ucd chunk encoding) =
       [Chunk (Buffer_from (toUpperCase ucd (toString chunk)))]
   \<and> Buffer_from (toUpperCase ucd (toString chunk)) \<noteq> []
   \<and> called_back (transform ucd chunk encoding) = Some None
   \<and> convertInputToUpperCase ucd stdin =
       concat (map (\<lambda>c. emitted (transform ucd c ''buffer'')) stdin) @ [End]
   \<and> length (convertInputToUpperCase ucd stdin) = length stdin + 1
   \<and> Chunk [] \<notin> set (convertInputToUpperCase ucd stdin)
   \<and> last (convertInputToUpperCase ucd stdin) = End
   \<and> Error e \<notin> set (convertInputToUpperCase ucd stdin)"
proof -
  have whole: "convertInputToUpperCase ucd stdin =
     map (\<lambda>c. Chunk (Buffer_from (toUpperCase ucd (toString c)))) stdin @ [End]"
    using stage_feed_transform [of ucd stdin "[End]"] by (simp add: convertInputToUpperCase_def)
  have a: "pushed (transform ucd chunk encoding) = [toUpperCase ucd (toString chunk)]"
    and d: "called_back (transform ucd chunk encoding) = Some None"
    by (simp_all add: transform_def)
  from assms(1,3) have "toUpperCase ucd (toString chunk) \<noteq> []"
    by (rule uppercased_text_nonempty)
  then have b: "emitted (transform ucd chunk encoding) =
       [Chunk (Buffer_from (toUpperCase ucd (toString chunk)))]"
    by (simp add: emitted_def readable_push_def transform_def)
  from assms(1,3) have c: "Buffer_from (toUpperCase ucd (toString chunk)) \<noteq> []"
    by (rule uppercased_chunk_nonempty)
  from assms(2,3) have f: "convertInputToUpperCase ucd stdin =
       concat (map (\<lambda>c. emitted (transform ucd c ''buffer'')) stdin) @ [End]"
    by (rule stage_output_emitted)
  from whole have g: "length (convertInputToUpperCase ucd stdin) = length stdin + 1"
    and i: "last (convertInputToUpperCase ucd stdin) = End"
    and j: "Error e \<notin> set (convertInputToUpperCase ucd stdin)"
    by auto
  from assms(2,3) have h: "Chunk [] \<notin> set (convertInputToUpperCase ucd stdin)"
    by (rule stage_output_nonempty)
  from a b c d f g h i j show ?thesis by (simp only: simp_thms)
qed

text \<open>
  The chunks \<^verbatim>\<open>"hello"\<close> and \<^verbatim>\<open>"x"\<close>, with the table written out and no more. The
  empty chunk, which no byte stream delivers, is pushed as the empty string and emits
  nothing.
\<close>

lemma empty_chunk_emits_nothing: "emitted (transform ucd [] encoding) = []"
  by (simp add: emitted_def readable_push_def transform_def toUpperCase_def toString_Nil)

theorem transform_pushes_once_without_error_witness:
  "''hello'' \<noteq> [] \<and> ''x'' \<noteq> [] \<and> no_ucd 0 \<noteq> []
   \<and> emitted (transform no_ucd ''hello'' ''buffer'') = [Chunk ''HELLO'']
   \<and> called_back (transform no_ucd ''hello'' ''buffer'') = Some None
   \<and> convertInputToUpperCase no_ucd [''hello'', ''x''] = [Chunk ''HELLO'', Chunk ''X'', End]"
proof -
  have h1: "''hello'' \<noteq> []" and h2: "\<forall>c \<in> set [''hello'', ''x'']. c \<noteq> []"
    and h3: "\<forall>c. no_ucd c \<noteq> []"
    by (simp_all add: no_ucd_def)
  have v: "Buffer_from (toUpperCase no_ucd (toString ''hello'')) = ''HELLO''"
    by (simp add: text_eval)
  have w: "convertInputToUpperCase no_ucd [''hello'', ''x''] = [Chunk ''HELLO'', Chunk ''X'', End]"
    by (simp add: convertInputToUpperCase_def transform_def text_eval)
  note all = transform_pushes_once_without_error [OF h1 h2 h3, of "''buffer''"]
  from all have "emitted (transform no_ucd ''hello'' ''buffer'') =
       [Chunk (Buffer_from (toUpperCase no_ucd (toString ''hello'')))]"
    and "called_back (transform no_ucd ''hello'' ''buffer'') = Some None"
    by blast+
  with v w h3 show ?thesis by simp
qed

section \<open>The Duplex\<close>

lemma flow_signals:
  "fst (flow sz d) =
   map (\<lambda>k. Chunk (Buffer_from (fromCharCode k))) [currentCharCode d..90] @ [End]"
proof (induction sz d rule: flow.induct)
  case (1 sz d)
  show ?case
  proof (cases "currentCharCode d > 90")
    case True
    then show ?thesis by (simp add: flow.simps [of sz d] read_def)
  next
    case False
    let ?s = "fromCharCode (currentCharCode d)"
    let ?d' = "d\<lparr>currentCharCode := currentCharCode d + 1\<rparr>"
    from False have r: "read sz d = (Chunk ?s, ?d')" by (simp add: read_def)
    have ih: "fst (flow sz (on_data (Buffer_from ?s) ?d')) =
      map (\<lambda>k. Chunk (Buffer_from (fromCharCode k)))
        [currentCharCode (on_data (Buffer_from ?s) ?d')..90] @ [End]"
      by (rule "1.IH" [OF r [symmetric] refl])
    have cc: "currentCharCode (on_data (Buffer_from ?s) ?d') = currentCharCode d + 1"
      by (simp add: on_data_def)
    from False have up: "[currentCharCode d..90] = currentCharCode d # [currentCharCode d + 1..90]"
      by (simp add: upto_rec1)
    show ?thesis
      using ih by (auto simp add: flow.simps [of sz d] r cc up split: prod.splits)
  qed
qed

lemma letters:
  "map (\<lambda>k. Chunk (Buffer_from (fromCharCode k))) [65..90] =
   map (\<lambda>c. Chunk [c]) ''ABCDEFGHIJKLMNOPQRSTUVWXYZ''"
  by (simp add: upto_rec_numeral Buffer_from_def fromCharCode_def encode_cp_def char_of_eq_iff)

text \<open>
  Claim C8. The readable side of the \<^verbatim>\<open>logChars\<close> Duplex emits exactly the 26
  one-character chunks \<^verbatim>\<open>A\<close> to \<^verbatim>\<open>Z\<close> (the codes 65 to 90, in increasing order) and
  then signals End; nothing else is emitted.
\<close>

theorem readable_side_emits_alphabet:
  "fst (flow sz myDuplexStream) =
     map (\<lambda>c. Chunk [c]) ''ABCDEFGHIJKLMNOPQRSTUVWXYZ'' @ [End]
   \<and> map of_char ''ABCDEFGHIJKLMNOPQRSTUVWXYZ'' = [65..<91::nat]"
proof -
  have "fst (flow sz myDuplexStream) =
     map (\<lambda>c. Chunk [c]) ''ABCDEFGHIJKLMNOPQRSTUVWXYZ'' @ [End]"
    using letters by (simp add: flow_signals myDuplexStream_def)
  moreover have "map of_char ''ABCDEFGHIJKLMNOPQRSTUVWXYZ'' = [65..<91::nat]"
    by (simp add: upt_rec_numeral)
  ultimately show ?thesis by simp
qed

lemma reads_after_End:
  "currentCharCode d > 90 \<Longrightarrow> reads n sz d = replicate n End"
  by (induction n) (simp_all add: read_def)

lemma read_End_iff: "fst (read sz d) = End \<longleftrightarrow> currentCharCode d > 90"
  by (simp add: read_def)

text \<open>
  Claim C5. Once a call of the read handler has signalled End, every later call signals
  End as well: in any run of \<open>n\<close> calls, from any state of the object, an End at
  position \<open>i\<close> is followed by End at every later position \<open>j\<close>.
\<close>

theorem read_End_is_final:
  "i \<le> j \<Longrightarrow> j < n \<Longrightarrow> reads n sz d ! i = End \<Longrightarrow> reads n sz d ! j = End"
proof (induction n arbitrary: i j d)
  case 0
  then show ?case by simp
next
  case (Suc n)
  obtain x d' where r: "read sz d = (x, d')" by (cases "read sz d")
  show ?case
  proof (cases i)
    case 0
    with Suc.prems r have "x = End" by simp
    with r have "currentCharCode d > 90" using read_End_iff [of sz d] by simp
    then have "reads (Suc n) sz d = replicate (Suc n) End" by (rule reads_after_End)
    moreover from Suc.prems have "replicate (Suc n) (End :: jsstring signal) ! j = End"
      by (simp only: nth_replicate)
    ultimately show ?thesis by (simp only:)
  next
    case (Suc i')
    with Suc.prems obtain j' where j: "j = Suc j'" by (cases j) auto
    from Suc.prems Suc j r have "i' \<le> j'" "j' < n" "reads n sz d' ! i' = End" by simp_all
    then have "reads n sz d' ! j' = End" by (rule Suc.IH)
    with j r show ?thesis by simp
  qed
qed

text \<open>
  Three calls from the state that is about to push \<^verbatim>\<open>Z\<close>: the second and the third
  signal End.
\<close>

theorem read_End_is_final_witness:
  "(1::nat) \<le> 2 \<and> (2::nat) < 3
   \<and> reads 3 16384 (myDuplexStream\<lparr>currentCharCode := 90\<rparr>) ! 1 = End
   \<and> reads 3 16384 (myDuplexStream\<lparr>currentCharCode := 90\<rparr>) ! 2 = End"
proof -
  have a: "(1::nat) \<le> 2" and b: "(2::nat) < 3" by simp_all
  have c: "reads 3 16384 (myDuplexStream\<lparr>currentCharCode := 90\<rparr>) ! 1 = End"
    by (simp add: numeral_3_eq_3 myDuplexStream_def read_def)
  from read_End_is_final [OF a b c] a b c show ?thesis by simp
qed

lemma flow_signals_cong:
  "currentCharCode d1 = currentCharCode d2 \<Longrightarrow> fst (flow sz d1) = fst (flow sz d2)"
  by (simp add: flow_signals)

text \<open>
  Claim C4. Ending the writable side of the Duplex leaves the readable side alone:
  \<^verbatim>\<open>currentCharCode\<close> is unchanged, the next read answers as it would have, and the
  readable side still emits every chunk it would have emitted before it signals End. In
  \<^verbatim>\<open>logChars\<close>, after \<^verbatim>\<open>write('Hello')\<close> and \<^verbatim>\<open>end()\<close>, it emits \<^verbatim>\<open>A\<close> to \<^verbatim>\<open>Z\<close>
  and then End.
\<close>

theorem duplex_end_leaves_readable_side:
  "currentCharCode (duplex_end d) = currentCharCode d
   \<and> fst (read sz (duplex_end d)) = fst (read sz d)
   \<and> fst (flow sz (duplex_end d)) = fst (flow sz d)
   \<and> fst (logChars sz) = map (\<lambda>c. Chunk [c]) ''ABCDEFGHIJKLMNOPQRSTUVWXYZ'' @ [End]"
proof -
  have a: "currentCharCode (duplex_end d) = currentCharCode d"
    by (simp add: duplex_end_def)
  have b: "fst (read sz (duplex_end d)) = fst (read sz d)"
    by (simp add: read_def duplex_end_def)
  have c: "fst (flow sz (duplex_end d)) = fst (flow sz d)"
    using a by (rule flow_signals_cong)
  have "currentCharCode (duplex_end (snd (duplex_write ''Hello'' myDuplexStream))) = 65"
    by (simp add: duplex_end_def duplex_write_def write_handler_def myDuplexStream_def)
  then have d: "fst (logChars sz) = map (\<lambda>c. Chunk [c]) ''ABCDEFGHIJKLMNOPQRSTUVWXYZ'' @ [End]"
    using letters by (simp add: logChars_def flow_signals)
  from a b c d show ?thesis by simp
qed

text \<open>
  The console after \<^verbatim>\<open>logChars\<close>, as the script's closing comment (lines 109 to 113)
  describes it: the write is logged first, then every character received.
\<close>

lemma flow_console:
  "console (snd (flow sz d)) =
   console d @
   map (\<lambda>k. ''Received: '' @ Buffer_from (toString (Buffer_from (fromCharCode k))))
     [currentCharCode d..90]"
proof (induction sz d rule: flow.induct)
  case (1 sz d)
  show ?case
  proof (cases "currentCharCode d > 90")
    case True
    then show ?thesis by (simp add: flow.simps [of sz d] read_def)
  next
    case False
    let ?s = "fromCharCode (currentCharCode d)"
    let ?d' = "d\<lparr>currentCharCode := currentCharCode d + 1\<rparr>"
    from False have r: "read sz d = (Chunk ?s, ?d')" by (simp add: read_def)
    have ih: "console (snd (flow sz (on_data (Buffer_from ?s) ?d'))) =
      console (on_data (Buffer_from ?s) ?d') @
      map (\<lambda>k. ''Received: '' @ Buffer_from (toString (Buffer_from (fromCharCode k))))
        [currentCharCode (on_data (Buffer_from ?s) ?d')..90]"
      by (rule "1.IH" [OF r [symmetric] refl])
    have cc: "currentCharCode (on_data (Buffer_from ?s) ?d') = currentCharCode d + 1"
      and co: "console (on_data (Buffer_from ?s) ?d') =
               console d @ [''Received: '' @ Buffer_from (toString (Buffer_from ?s))]"
      by (simp_all add: on_data_def)
    from False have up: "[currentCharCode d..90] = currentCharCode d # [currentCharCode d + 1..90]"
      by (simp add: upto_rec1)
    show ?thesis
      using ih by (auto simp add: flow.simps [of sz d] r cc co up split: prod.splits)
  qed
qed

lemma received_lines:
  "map (\<lambda>k. ''Received: '' @ Buffer_from (toString (Buffer_from (fromCharCode k)))) [65..90] =
   map (\<lambda>c. ''Received: '' @ [c]) ''ABCDEFGHIJKLMNOPQRSTUVWXYZ''"
  by (simp add: upto_rec_numeral fromCharCode_def text_eval)

lemma logChars_console:
  "console (snd (logChars sz)) =
   ''Writing: Hello'' # map (\<lambda>c. ''Received: '' @ [c]) ''ABCDEFGHIJKLMNOPQRSTUVWXYZ''"
proof -
  let ?d = "duplex_end (snd (duplex_write ''Hello'' myDuplexStream))"
  have "Buffer_from (toString ''Hello'') = ''Hello''"
    by (simp add: text_eval)
  then have "currentCharCode ?d = 65" and "console ?d = [''Writing: Hello'']"
    by (simp_all add: duplex_end_def duplex_write_def write_handler_def myDuplexStream_def)
  then show ?thesis
    using received_lines by (simp add: logChars_def flow_console)
qed

lemma sink_write_closed: "closed k \<Longrightarrow> sink_write c k = (Failed Closed, k)"
  by (simp add: sink_write_def)

lemma sink_writes_closed:
  "closed k \<Longrightarrow> sink_writes cs k = (replicate (length cs) (Failed Closed), k)"
  by (induction cs) (simp_all add: sink_write_closed)

lemma duplex_write_ended: "writable_ended d \<Longrightarrow> duplex_write c d = (Failed Closed, d)"
  by (simp add: duplex_write_def)

text \<open>
  Claim C6. Every write issued after close fails with \<^const>\<open>Closed\<close> and is not
  accepted: a closed sink answers \<^const>\<open>Failed\<close> \<^const>\<open>Closed\<close> to one write and to
  any number of writes in a row and stays as it was, and so does the writable side of
  the Duplex after \<^verbatim>\<open>end()\<close>, whose write handler is not run (nothing is printed).
\<close>

theorem write_after_close_fails:
  "sink_write c (sink_close k) = (Failed Closed, sink_close k)
   \<and> sink_writes cs (sink_close k) = (replicate (length cs) (Failed Closed), sink_close k)
   \<and> duplex_write c (duplex_end d) = (Failed Closed, duplex_end d)
   \<and> console (snd (duplex_write c (duplex_end d))) = console d"
proof -
  have k: "closed (sink_close k)" by (simp add: sink_close_def)
  have d: "writable_ended (duplex_end d)" by (simp add: duplex_end_def)
  from k have "sink_write c (sink_close k) = (Failed Closed, sink_close k)"
    by (rule sink_write_closed)
  moreover from k have
    "sink_writes cs (sink_close k) = (replicate (length cs) (Failed Closed), sink_close k)"
    by (rule sink_writes_closed)
  moreover from d have w: "duplex_write c (duplex_end d) = (Failed Closed, duplex_end d)"
    by (rule duplex_write_ended)
  moreover have "console (snd (duplex_write c (duplex_end d))) = console d"
    by (simp add: w) (simp add: duplex_end_def)
  ultimately show ?thesis by simp
qed

section \<open>The pipe\<close>

subsection \<open>The buffer's accounting\<close>

lemma bytes_simps [simp]:
  "bytes [] = 0" "bytes (c # cs) = length c + bytes cs" "bytes (xs @ ys) = bytes xs + bytes ys"
  by (simp_all add: bytes_def)

lemma bytes_butlast: "cs \<noteq> [] \<Longrightarrow> bytes cs = bytes (butlast cs) + length (last cs)"
  by (induction cs) auto

lemma high_watermark_deliver: "high_watermark (deliver c p) = high_watermark p"
  by (simp add: deliver_def split: prod.splits write_result.splits)

lemma high_watermark_event: "high_watermark (pipe_event e p) = high_watermark p"
  by (cases e)
     (simp_all add: high_watermark_deliver
        split: pipe_status.splits option.splits prod.splits signal.splits list.splits)

lemma high_watermark_run: "high_watermark (pipe_run es p) = high_watermark p"
  by (induction es arbitrary: p) (simp_all add: high_watermark_event)

lemma accounted_init: "accounted (pipe_init hw u k)"
  by (simp add: accounted_def pipe_init_def held_list_def)

lemma accounted_deliver:
  assumes "buffered p = bytes (acks_due p) + length c"
    and "bytes (acks_due p) < high_watermark p"
  shows "accounted (deliver c p)"
  using assms
  by (simp add: accounted_def deliver_def held_list_def split: prod.splits write_result.splits)

lemma accounted_Ack: "accounted p \<Longrightarrow> accounted (pipe_event Ack p)"
  by (cases "acks_due p"; cases "held p")
     (auto simp: accounted_def held_list_def split: if_splits)

lemma accounted_Drained: "accounted p \<Longrightarrow> accounted (pipe_event Drained p)"
  by (simp add: accounted_def held_list_def split: option.splits)

lemma accounted_Step:
  assumes "accounted p"
  shows "accounted (pipe_event Step p)"
proof (cases "status p")
  case Idle
  with assms show ?thesis by (simp add: accounted_def held_list_def split: option.splits)
next
  case Running
  show ?thesis
  proof (cases "suspended p")
    case True
    with Running assms show ?thesis by simp
  next
    case False
    show ?thesis
    proof (cases "held p")
      case (Some c)
      from assms Some have "buffered p = bytes (acks_due p) + length c"
        and "bytes (acks_due p) < high_watermark p"
        by (simp_all add: accounted_def held_list_def)
      then have "accounted (deliver c p)" by (rule accounted_deliver)
      with Running False Some show ?thesis by simp
    next
      case None
      from assms None have b: "buffered p = bytes (acks_due p)"
        by (simp add: accounted_def held_list_def)
      show ?thesis
      proof (cases "high_watermark p \<le> buffered p")
        case True
        with Running False None assms show ?thesis by simp
      next
        case below: False
        obtain x u where pl: "poll (upstream p) = (x, u)" by (cases "poll (upstream p)")
        show ?thesis
        proof (cases x)
          case (Chunk c)
          let ?p = "p\<lparr>upstream := u, buffered := buffered p + length c\<rparr>"
          have "buffered ?p = bytes (acks_due ?p) + length c" using b by simp
          moreover have "bytes (acks_due ?p) < high_watermark ?p" using b below by simp
          ultimately have "accounted (deliver c ?p)" by (rule accounted_deliver)
          with Running False None below pl Chunk show ?thesis by simp
        next
          case End
          with Running False None below pl assms show ?thesis
            by (auto simp add: accounted_def held_list_def)
        next
          case (Error e)
          with Running False None below pl assms show ?thesis
            by (simp add: accounted_def held_list_def)
        qed
      qed
    qed
  qed
next
  case Completed
  with assms show ?thesis by simp
next
  case (Errored e)
  with assms show ?thesis by simp
qed

lemma accounted_event: "accounted p \<Longrightarrow> accounted (pipe_event e p)"
  by (cases e) (simp_all only: accounted_Step accounted_Ack accounted_Drained)

lemma accounted_run: "accounted p \<Longrightarrow> accounted (pipe_run es p)"
  by (induction es arbitrary: p) (simp_all add: accounted_event)

lemma accounted_bound:
  assumes "accounted p"
  shows "buffered p \<le> high_watermark p + in_flight p"
proof (cases "held p")
  case (Some c)
  with assms show ?thesis by (simp add: accounted_def in_flight_def held_list_def)
next
  case None
  show ?thesis
  proof (cases "acks_due p")
    case Nil
    with None assms show ?thesis by (simp add: accounted_def in_flight_def held_list_def)
  next
    case (Cons a as)
    then have "bytes (acks_due p) = bytes (butlast (acks_due p)) + length (last (acks_due p))"
      by (simp only: bytes_butlast list.distinct not_False_eq_True)
    with None Cons assms show ?thesis
      by (simp add: accounted_def in_flight_def held_list_def)
  qed
qed

text \<open>
  Claim C7. In every state a pipe reaches from its initial state, under every schedule
  of steps, acknowledgements and drain signals, for every source, sink and high
  watermark, the buffered byte count exceeds the high watermark by at most the size of
  the one chunk in flight.
\<close>

theorem buffered_within_one_chunk_of_watermark:
  "buffered (pipe_run es (pipe_init hw u k)) \<le> hw + in_flight (pipe_run es (pipe_init hw u k))"
proof -
  have "accounted (pipe_run es (pipe_init hw u k))"
    by (rule accounted_run) (rule accounted_init)
  then have "buffered (pipe_run es (pipe_init hw u k)) \<le>
    high_watermark (pipe_run es (pipe_init hw u k)) + in_flight (pipe_run es (pipe_init hw u k))"
    by (rule accounted_bound)
  then show ?thesis by (simp add: high_watermark_run pipe_init_def)
qed

text \<open>
  A chunk of two bytes polled under a high watermark of one byte: the count is two, one
  chunk over the watermark.
\<close>

lemma over_watermark:
  "pipe_run [Step, Step] (pipe_init 1 (source_of [Chunk ''ab'', End]) (sink_of [])) =
   \<lparr>status = Running,
    upstream = \<lparr>pending = [End], exhausted = False, lastError = None\<rparr>,
    downstream = \<lparr>received = [''ab''], accepting = True, closed = False, replies = []\<rparr>,
    high_watermark = 1, buffered = 2, acks_due = [''ab''], held = None, suspended = False\<rparr>"
  by (simp add: pipe_init_def source_of_def sink_of_def poll_def deliver_def sink_write_def)

theorem buffered_within_one_chunk_of_watermark_witness:
  "buffered (pipe_run [Step, Step] (pipe_init 1 (source_of [Chunk ''ab'', End]) (sink_of []))) = 2
   \<and> in_flight (pipe_run [Step, Step]
         (pipe_init 1 (source_of [Chunk ''ab'', End]) (sink_of []))) = 2
   \<and> buffered (pipe_run [Step, Step] (pipe_init 1 (source_of [Chunk ''ab'', End]) (sink_of [])))
       \<le> 1 + in_flight (pipe_run [Step, Step]
               (pipe_init 1 (source_of [Chunk ''ab'', End]) (sink_of [])))"
proof -
  let ?p = "pipe_run [Step, Step] (pipe_init 1 (source_of [Chunk ''ab'', End]) (sink_of []))"
  have "buffered ?p = 2" unfolding over_watermark by simp
  moreover have "in_flight ?p = 2" unfolding over_watermark by (simp add: in_flight_def)
  moreover note buffered_within_one_chunk_of_watermark
    [of "[Step, Step]" 1 "source_of [Chunk ''ab'', End]" "sink_of []"]
  ultimately show ?thesis by blast
qed

subsection \<open>Runs free of errors\<close>

lemma poll_on_course:
  assumes "lastError u = None" and "exhausted u \<or> error_free (pending u)"
  shows "case poll u of
           (Chunk c, u') \<Rightarrow>
             lastError u' = None \<and> \<not> exhausted u' \<and> error_free (pending u') \<and>
             remaining u = c # remaining u' \<and> Suc (length (pending u')) = length (pending u)
         | (End, u') \<Rightarrow> lastError u' = None \<and> exhausted u' \<and> remaining u = []
         | (Error e, u') \<Rightarrow> False"
proof (cases "exhausted u")
  case True
  with assms show ?thesis by (simp add: poll_def remaining_def)
next
  case False
  show ?thesis
  proof (cases "pending u")
    case Nil
    with False assms show ?thesis by (simp add: poll_def remaining_def)
  next
    case (Cons x xs)
    with False assms show ?thesis by (cases x) (simp_all add: poll_def remaining_def)
  qed
qed

lemma deliver_on_course:
  assumes "status p = Running" and "\<not> closed (downstream p)"
    and "no_failure (replies (downstream p))"
    and "lastError (upstream p) = None"
    and "exhausted (upstream p) \<or> error_free (pending (upstream p))"
    and "received (downstream p) @ c # remaining (upstream p) = cs"
  shows "on_course cs (deliver c p)"
proof (cases "replies (downstream p)")
  case Nil
  with assms show ?thesis
    by (simp add: on_course_def deliver_def sink_write_def held_list_def)
next
  case (Cons r rs)
  with assms show ?thesis
    by (cases r) (simp_all add: on_course_def deliver_def sink_write_def held_list_def)
qed

lemma on_course_Step:
  assumes "on_course cs p"
  shows "on_course cs (pipe_event Step p)"
proof (cases "status p")
  case Idle
  with assms show ?thesis by (simp add: on_course_def held_list_def)
next
  case Running
  from assms Running have open_sink: "\<not> closed (downstream p)"
    and nf: "no_failure (replies (downstream p))"
    and le: "lastError (upstream p) = None"
    and ef: "exhausted (upstream p) \<or> error_free (pending (upstream p))"
    and all: "received (downstream p) @ held_list p @ remaining (upstream p) = cs"
    by (simp_all add: on_course_def)
  show ?thesis
  proof (cases "suspended p")
    case True
    with Running assms show ?thesis by simp
  next
    case False
    show ?thesis
    proof (cases "held p")
      case (Some c)
      with all have "received (downstream p) @ c # remaining (upstream p) = cs"
        by (simp add: held_list_def)
      with Running open_sink nf le ef have "on_course cs (deliver c p)"
        by (rule deliver_on_course)
      with Running False Some show ?thesis by simp
    next
      case None
      show ?thesis
      proof (cases "high_watermark p \<le> buffered p")
        case True
        with Running False None assms show ?thesis by simp
      next
        case below: False
        obtain x u where pl: "poll (upstream p) = (x, u)" by (cases "poll (upstream p)")
        note facts = poll_on_course [OF le ef, unfolded pl]
        show ?thesis
        proof (cases x)
          case (Chunk c)
          let ?p = "p\<lparr>upstream := u, buffered := buffered p + length c\<rparr>"
          from facts Chunk have u: "lastError u = None" "\<not> exhausted u" "error_free (pending u)"
            "remaining (upstream p) = c # remaining u"
            by simp_all
          have "status ?p = Running" using Running by simp
          moreover have "\<not> closed (downstream ?p)" using open_sink by simp
          moreover have "no_failure (replies (downstream ?p))" using nf by simp
          moreover have "lastError (upstream ?p) = None" using u by simp
          moreover have "exhausted (upstream ?p) \<or> error_free (pending (upstream ?p))"
            using u by simp
          moreover from all None u
          have "received (downstream ?p) @ c # remaining (upstream ?p) = cs"
            by (simp add: held_list_def)
          ultimately have "on_course cs (deliver c ?p)"
            by (rule deliver_on_course)
          with Running False None below pl Chunk show ?thesis by simp
        next
          case End
          from facts End have u: "lastError u = None" "exhausted u" "remaining (upstream p) = []"
            by simp_all
          with Running False None below pl End all nf open_sink show ?thesis
            by (simp add: on_course_def held_list_def remaining_def sink_close_def)
        next
          case (Error e)
          with facts show ?thesis by simp
        qed
      qed
    qed
  qed
next
  case Completed
  with assms show ?thesis by simp
next
  case (Errored e)
  with assms show ?thesis by simp
qed

lemma on_course_event: "on_course cs p \<Longrightarrow> on_course cs (pipe_event e p)"
proof (cases e)
  case Step
  assume "on_course cs p"
  then show ?thesis unfolding Step by (rule on_course_Step)
next
  case Ack
  assume "on_course cs p"
  then show ?thesis unfolding Ack
    by (cases "acks_due p") (simp_all add: on_course_def held_list_def)
next
  case Drained
  assume "on_course cs p"
  then show ?thesis unfolding Drained
    by (simp add: on_course_def held_list_def)
qed

lemma on_course_run: "on_course cs p \<Longrightarrow> on_course cs (pipe_run es p)"
  by (induction es arbitrary: p) (simp_all add: on_course_event)

lemma on_course_init:
  "error_free script \<Longrightarrow> no_failure rs \<Longrightarrow>
   on_course (produced script) (readWriteStream hw script rs)"
  by (simp add: on_course_def readWriteStream_def pipe_init_def source_of_def sink_of_def
      held_list_def remaining_def)

lemma on_course_prefix: "on_course cs p \<Longrightarrow> prefix (received (downstream p)) cs"
  by (auto simp: on_course_def)

lemma on_course_Completed:
  "on_course cs p \<Longrightarrow> status p = Completed \<Longrightarrow> received (downstream p) = cs"
  by (auto simp: on_course_def held_list_def remaining_def)

subsection \<open>Progress under a fair scheduler\<close>

lemma deliver_work_left:
  assumes "\<not> closed (downstream p)" and "no_failure (replies (downstream p))"
    and "\<not> suspended p" and "status p = Running"
  shows "work_left (deliver c p) \<le>
         2 * length (pending (upstream p)) + length (acks_due p) +
         2 * length (replies (downstream p)) + 1"
proof (cases "replies (downstream p)")
  case Nil
  with assms show ?thesis
    by (simp add: work_left_def deliver_def sink_write_def held_list_def)
next
  case (Cons r rs)
  with assms show ?thesis
    by (cases r) (simp_all add: work_left_def deliver_def sink_write_def held_list_def)
qed

lemma progress:
  assumes oc: "on_course cs p" and acc: "accounted p" and hw: "0 < high_watermark p"
    and nc: "status p \<noteq> Completed"
  shows "\<exists>e. status (pipe_event e p) = Completed \<or> work_left (pipe_event e p) < work_left p"
proof (cases "status p = Idle")
  case True
  then have "work_left (pipe_event Step p) < work_left p"
    by (simp add: work_left_def held_list_def)
  then show ?thesis by blast
next
  case False
  with oc nc have run: "status p = Running" by (auto simp: on_course_def)
  from oc run have open_sink: "\<not> closed (downstream p)"
    and nf: "no_failure (replies (downstream p))"
    and le: "lastError (upstream p) = None"
    and ef: "exhausted (upstream p) \<or> error_free (pending (upstream p))"
    by (simp_all add: on_course_def)
  show ?thesis
  proof (cases "suspended p")
    case True
    with run have "work_left (pipe_event Drained p) < work_left p"
      by (simp add: work_left_def held_list_def)
    then show ?thesis by blast
  next
    case ns: False
    show ?thesis
    proof (cases "held p")
      case (Some c)
      from open_sink nf ns run have "work_left (deliver c p) \<le>
         2 * length (pending (upstream p)) + length (acks_due p) +
         2 * length (replies (downstream p)) + 1"
        by (rule deliver_work_left)
      moreover from Some ns run have "work_left p =
         2 * length (pending (upstream p)) + length (acks_due p) +
         2 * length (replies (downstream p)) + 2"
        by (simp add: work_left_def held_list_def)
      ultimately have "work_left (pipe_event Step p) < work_left p"
        using run ns Some by simp
      then show ?thesis by blast
    next
      case None
      show ?thesis
      proof (cases "acks_due p")
        case (Cons a as)
        then have "work_left (pipe_event Ack p) < work_left p"
          by (simp add: work_left_def held_list_def)
        then show ?thesis by blast
      next
        case Nil
        with acc None have "buffered p = 0" by (simp add: accounted_def held_list_def)
        with hw have below: "\<not> high_watermark p \<le> buffered p" by simp
        obtain x u where pl: "poll (upstream p) = (x, u)" by (cases "poll (upstream p)")
        note facts = poll_on_course [OF le ef, unfolded pl]
        show ?thesis
        proof (cases x)
          case (Chunk c)
          let ?p = "p\<lparr>upstream := u, buffered := buffered p + length c\<rparr>"
          from facts Chunk have len: "Suc (length (pending u)) = length (pending (upstream p))"
            by simp
          have "work_left (deliver c ?p) \<le>
             2 * length (pending (upstream ?p)) + length (acks_due ?p) +
             2 * length (replies (downstream ?p)) + 1"
            using open_sink nf ns run by (intro deliver_work_left) simp_all
          moreover from None ns run Nil have "work_left p =
             2 * length (pending (upstream p)) + 2 * length (replies (downstream p))"
            by (simp add: work_left_def held_list_def)
          ultimately have "work_left (deliver c ?p) < work_left p"
            using len Nil by simp
          with run ns None below pl Chunk have "work_left (pipe_event Step p) < work_left p"
            by simp
          then show ?thesis by blast
        next
          case End
          with run ns None below pl Nil have "status (pipe_event Step p) = Completed"
            by simp
          then show ?thesis by blast
        next
          case (Error e)
          with facts show ?thesis by simp
        qed
      qed
    qed
  qed
qed

lemma completes:
  "on_course cs p \<Longrightarrow> accounted p \<Longrightarrow> 0 < high_watermark p \<Longrightarrow>
   \<exists>es. status (pipe_run es p) = Completed"
proof (induction "work_left p" arbitrary: p rule: less_induct)
  case less
  show ?case
  proof (cases "status p = Completed")
    case True
    then have "status (pipe_run [] p) = Completed" by simp
    then show ?thesis by blast
  next
    case False
    with less.prems obtain e
      where e: "status (pipe_event e p) = Completed \<or> work_left (pipe_event e p) < work_left p"
      using progress by blast
    show ?thesis
    proof (cases "status (pipe_event e p) = Completed")
      case True
      then have "status (pipe_run [e] p) = Completed" by simp
      then show ?thesis by blast
    next
      case False
      with e have "work_left (pipe_event e p) < work_left p" by simp
      moreover from less.prems have "on_course cs (pipe_event e p)"
        and "accounted (pipe_event e p)" and "0 < high_watermark (pipe_event e p)"
        by (simp_all add: on_course_event accounted_event high_watermark_event)
      ultimately obtain es where "status (pipe_run es (pipe_event e p)) = Completed"
        using less.hyps by blast
      then have "status (pipe_run (e # es) p) = Completed" by simp
      then show ?thesis by blast
    qed
  qed
qed

text \<open>
  Claim C1. A source that yields its chunks without an error is piped to a sink that
  fails no write. Under every schedule the sink has received a prefix of the chunks
  produced, in their order; when the pipe is Completed the sink has received exactly the
  chunks produced (so the concatenated bytes agree); and with a positive high watermark
  some schedule takes the pipe to Completed.
\<close>

theorem pipe_preserves_chunks:
  assumes "error_free script" and "no_failure rs"
  shows "prefix (received (downstream (pipe_run es (readWriteStream hw script rs))))
           (produced script)
       \<and> (status (pipe_run es (readWriteStream hw script rs)) = Completed \<longrightarrow>
            received (downstream (pipe_run es (readWriteStream hw script rs))) =
              produced script
          \<and> concat (received (downstream (pipe_run es (readWriteStream hw script rs)))) =
              concat (produced script))
       \<and> (0 < hw \<longrightarrow>
            (\<exists>es'. status (pipe_run es' (readWriteStream hw script rs)) = Completed
                 \<and> received (downstream (pipe_run es' (readWriteStream hw script rs))) =
                     produced script))"
proof -
  let ?p0 = "readWriteStream hw script rs"
  from assms have oc0: "on_course (produced script) ?p0" by (rule on_course_init)
  then have oc: "\<And>es. on_course (produced script) (pipe_run es ?p0)"
    by (rule on_course_run)
  have a: "prefix (received (downstream (pipe_run es ?p0))) (produced script)"
    using oc by (rule on_course_prefix)
  have b: "status (pipe_run es ?p0) = Completed \<Longrightarrow>
           received (downstream (pipe_run es ?p0)) = produced script" for es
    using oc by (rule on_course_Completed)
  have c: "\<exists>es'. status (pipe_run es' ?p0) = Completed
                 \<and> received (downstream (pipe_run es' ?p0)) = produced script" if "0 < hw"
  proof -
    have "accounted ?p0" by (simp add: readWriteStream_def accounted_def pipe_init_def held_list_def)
    moreover from that have "0 < high_watermark ?p0"
      by (simp add: readWriteStream_def pipe_init_def)
    ultimately obtain es' where "status (pipe_run es' ?p0) = Completed"
      using oc0 completes by blast
    with b show ?thesis by blast
  qed
  from a b c show ?thesis by auto
qed

lemmas pipe_eval =
  readWriteStream_def pipe_init_def source_of_def sink_of_def poll_def deliver_def
  sink_write_def sink_close_def

lemma scenario_first_half:
  "pipe_run [Step, Step, Step] (readWriteStream 16384 [Chunk ''ab'', Chunk ''cd'', End] []) =
   \<lparr>status = Running,
    upstream = \<lparr>pending = [End], exhausted = False, lastError = None\<rparr>,
    downstream =
      \<lparr>received = [''ab'', ''cd''], accepting = True, closed = False, replies = []\<rparr>,
    high_watermark = 16384, buffered = 4, acks_due = [''ab'', ''cd''], held = None,
    suspended = False\<rparr>"
  by (simp add: pipe_eval)

lemma scenario_second_half:
  "pipe_run [Ack, Ack, Step]
     \<lparr>status = Running,
      upstream = \<lparr>pending = [End], exhausted = False, lastError = None\<rparr>,
      downstream =
        \<lparr>received = [''ab'', ''cd''], accepting = True, closed = False, replies = []\<rparr>,
      high_watermark = 16384, buffered = 4, acks_due = [''ab'', ''cd''], held = None,
      suspended = False\<rparr> =
   \<lparr>status = Completed,
    upstream = \<lparr>pending = [], exhausted = True, lastError = None\<rparr>,
    downstream =
      \<lparr>received = [''ab'', ''cd''], accepting = True, closed = True, replies = []\<rparr>,
    high_watermark = 16384, buffered = 0, acks_due = [], held = None, suspended = False\<rparr>"
  by (simp add: pipe_eval)

lemma scenario_status:
  "status (pipe_run [Step, Step, Step, Ack, Ack, Step]
     (readWriteStream 16384 [Chunk ''ab'', Chunk ''cd'', End] [])) = Completed"
proof -
  let ?p0 = "readWriteStream 16384 [Chunk ''ab'', Chunk ''cd'', End] []"
  have "pipe_run [Step, Step, Step, Ack, Ack, Step] ?p0 =
        pipe_run [Ack, Ack, Step] (pipe_run [Step, Step, Step] ?p0)"
    by (simp only: pipe_run.simps)
  also have "\<dots> =
    \<lparr>status = Completed,
     upstream = \<lparr>pending = [], exhausted = True, lastError = None\<rparr>,
     downstream =
       \<lparr>received = [''ab'', ''cd''], accepting = True, closed = True, replies = []\<rparr>,
     high_watermark = 16384, buffered = 0, acks_due = [], held = None, suspended = False\<rparr>"
    by (simp only: scenario_first_half scenario_second_half)
  finally have final: "pipe_run [Step, Step, Step, Ack, Ack, Step] ?p0 =
    \<lparr>status = Completed,
     upstream = \<lparr>pending = [], exhausted = True, lastError = None\<rparr>,
     downstream =
       \<lparr>received = [''ab'', ''cd''], accepting = True, closed = True, replies = []\<rparr>,
     high_watermark = 16384, buffered = 0, acks_due = [], held = None, suspended = False\<rparr>" .
  show ?thesis unfolding final by simp
qed

text \<open>
  The scenario of section 8 with backpressure: the source emits \<^verbatim>\<open>"x"\<close>, the sink
  answers Backpressured and later signals that it has drained; the pipe then delivers
  \<^verbatim>\<open>"x"\<close> and completes on End.
\<close>

lemma backpressure_first_half:
  "pipe_run [Step, Step, Step] (readWriteStream 16384 [Chunk ''x'', End] [Backpressured]) =
   \<lparr>status = Running,
    upstream = \<lparr>pending = [End], exhausted = False, lastError = None\<rparr>,
    downstream = \<lparr>received = [], accepting = False, closed = False, replies = []\<rparr>,
    high_watermark = 16384, buffered = 1, acks_due = [], held = Some ''x'',
    suspended = True\<rparr>"
  by (simp add: pipe_eval)

lemma backpressure_second_half:
  "pipe_run [Drained, Step, Ack, Step]
     \<lparr>status = Running,
      upstream = \<lparr>pending = [End], exhausted = False, lastError = None\<rparr>,
      downstream = \<lparr>received = [], accepting = False, closed = False, replies = []\<rparr>,
      high_watermark = 16384, buffered = 1, acks_due = [], held = Some ''x'',
      suspended = True\<rparr> =
   \<lparr>status = Completed,
    upstream = \<lparr>pending = [], exhausted = True, lastError = None\<rparr>,
    downstream = \<lparr>received = [''x''], accepting = True, closed = True, replies = []\<rparr>,
    high_watermark = 16384, buffered = 0, acks_due = [], held = None, suspended = False\<rparr>"
  by (simp add: pipe_eval)

text \<open>
  The scenario of section 8: the source emits \<^verbatim>\<open>"ab"\<close>, \<^verbatim>\<open>"cd"\<close>, then End, and the
  sink accepts both. The pipe starts, polls twice, is acknowledged twice and polls End.
\<close>

theorem pipe_preserves_chunks_witness:
  "error_free [Chunk ''ab'', Chunk ''cd'', End] \<and> no_failure []
   \<and> status (pipe_run [Step, Step, Step, Ack, Ack, Step]
        (readWriteStream 16384 [Chunk ''ab'', Chunk ''cd'', End] [])) = Completed
   \<and> received (downstream (pipe_run [Step, Step, Step, Ack, Ack, Step]
        (readWriteStream 16384 [Chunk ''ab'', Chunk ''cd'', End] []))) = [''ab'', ''cd'']"
proof -
  let ?script = "[Chunk ''ab'', Chunk ''cd'', End]"
  let ?p = "pipe_run [Step, Step, Step, Ack, Ack, Step] (readWriteStream 16384 ?script [])"
  have s: "error_free ?script" and r: "no_failure []" by simp_all
  note all = pipe_preserves_chunks [OF s r, of "[Step, Step, Step, Ack, Ack, Step]" 16384]
  from all have "status ?p = Completed \<longrightarrow>
      received (downstream ?p) = produced ?script \<and>
      concat (received (downstream ?p)) = concat (produced ?script)"
    by (rule conjunct1 [OF conjunct2])
  with scenario_status have "received (downstream ?p) = produced ?script"
    by blast
  also have "produced ?script = [''ab'', ''cd'']" by simp
  finally have "received (downstream ?p) = [''ab'', ''cd'']" .
  with s r scenario_status show ?thesis by blast
qed

end
